theory Spec2Isabelle
  imports Main "HOL-Library.AList"
begin

section \<open>SequelizeSimpleCache: the data model\<close>

text \<open>
  The embedding follows \<^verbatim>\<open>src/SequelizeSimpleCache.js\<close>.

  \<^item> A JavaScript \<^verbatim>\<open>Map\<close> iterates in insertion order, \<^verbatim>\<open>set\<close> on a present key keeps
    its position and \<^verbatim>\<open>set\<close> on a new key appends. It is an association list with
    \<open>map_of\<close> for \<^verbatim>\<open>get\<close>, \<open>AList.update\<close> for \<^verbatim>\<open>set\<close> and \<open>AList.delete\<close> for
    \<^verbatim>\<open>delete\<close>. The plain object \<^verbatim>\<open>this.cache\<close> is modelled the same way.
  \<^item> \<^verbatim>\<open>Date.now()\<close> is a parameter \<open>now\<close> (milliseconds, an integer); \<^verbatim>\<open>ttl\<close> is
    \<^verbatim>\<open>false\<close> or an integer number of seconds.
  \<^item> \<^verbatim>\<open>expires\<close> is \<^verbatim>\<open>false\<close> or a number. The source tests it by truthiness
    (\<^verbatim>\<open>!expires\<close>, \<^verbatim>\<open>expires && ...\<close>) and compares it with \<^verbatim>\<open><\<close>, \<^verbatim>\<open><=\<close>, \<^verbatim>\<open>>\<close>, which
    coerce \<^verbatim>\<open>false\<close> to \<open>0\<close>; both are written out.
  \<^item> \<^verbatim>\<open>util.inspect\<close>, the MD5 digest and the wrapped Sequelize model are not part of
    the repository; they are parameters of the functions that use them.
  \<^item> The reporting half of \<^verbatim>\<open>log\<close> (the delegate call when \<^verbatim>\<open>debug\<close> is set) changes
    no state of the cache and is left out; the counters are kept. The counter
    \<^verbatim>\<open>stats.purge\<close> is the field \<open>purged\<close>, and the method \<^verbatim>\<open>size\<close> is \<open>size_of\<close>.
\<close>

type_synonym hash = string

datatype expiry = EFalse | ENum int

fun truthy :: "expiry \<Rightarrow> bool" where
  "truthy EFalse = False"
| "truthy (ENum t) = (t \<noteq> 0)"

fun to_number :: "expiry \<Rightarrow> int" where
  "to_number EFalse = 0"
| "to_number (ENum t) = t"

record 'd item =
  data :: 'd
  expires :: expiry

type_synonym 'd store = "(hash \<times> 'd item) list"

datatype ttl = TtlFalse | TtlNum int

record type_config =
  ttl :: ttl
  methods :: "string list"
  methodsUpdate :: "string list"
  limit :: int
  clearOnUpdate :: bool

record stats =
  hit :: nat
  miss :: nat
  load :: nat
  purged :: nat

record 'd cache_state =
  config :: "(string \<times> type_config) list"
  cache :: "(string \<times> 'd store) list"
  associations :: "(string \<times> string list) list"
  stats :: stats

datatype error = TypeError | AssertionError | UnderlyingFailure

text \<open>A value a promise resolves to: \<^verbatim>\<open>undefined\<close>, \<^verbatim>\<open>null\<close> or anything else.\<close>

datatype 'd jsval = Undefined | Null | Val 'd

text \<open>How the promise returned by the intercepting function settles.\<close>

datatype 'd settled = Rejected error | Resolved "'d jsval"

text \<open>
  What \<^verbatim>\<open>target[prop](...args)\<close> does: it throws, returns \<^verbatim>\<open>undefined\<close>/\<^verbatim>\<open>null\<close> (reading
  \<^verbatim>\<open>.then\<close> is then a TypeError), returns a value with no \<^verbatim>\<open>then\<close> (the assertion
  fails), or returns a promise with its outcome.
\<close>

datatype 'd returned = RetThrows | RetNullish | RetPlain | RetPromise "'d settled"

text \<open>
  An argument of a call. Destructuring \<^verbatim>\<open>{ transaction }\<close> throws a TypeError on
  \<^verbatim>\<open>undefined\<close> and \<^verbatim>\<open>null\<close>; on every other value it reads the property, of which
  only the truthiness is used.
\<close>

datatype 'v arg = ArgUndefined | ArgNull | ArgVal (transaction: bool) (payload: 'v)

section \<open>Statistics: \<^verbatim>\<open>log\<close>\<close>

datatype event = EvInit | EvHit | EvMiss | EvLoad | EvPurge | EvOps

fun bump :: "event \<Rightarrow> stats \<Rightarrow> stats" where
  "bump EvHit s = s\<lparr>hit := hit s + 1\<rparr>"
| "bump EvMiss s = s\<lparr>miss := miss s + 1\<rparr>"
| "bump EvLoad s = s\<lparr>load := load s + 1\<rparr>"
| "bump EvPurge s = s\<lparr>purged := purged s + 1\<rparr>"
| "bump EvInit s = s"
| "bump EvOps s = s"

definition log :: "event \<Rightarrow> 'd cache_state \<Rightarrow> 'd cache_state" where
  "log ev st = st\<lparr>stats := bump ev (stats st)\<rparr>"

section \<open>Key derivation: \<^verbatim>\<open>key\<close> and the digest\<close>

text \<open>
  \<^verbatim>\<open>key(obj)\<close> is \<^verbatim>\<open>util.inspect(obj, ...)\<close> on the object \<^verbatim>\<open>{ type, prop, args }\<close>; the
  hash is the hex MD5 digest of that string.
\<close>

type_synonym 'v inspect = "string \<times> string \<times> 'v arg list \<Rightarrow> string"

definition key :: "'v inspect \<Rightarrow> string \<times> string \<times> 'v arg list \<Rightarrow> string" where
  "key inspect obj = inspect obj"

definition hash_of ::
  "'v inspect \<Rightarrow> (string \<Rightarrow> hash) \<Rightarrow> string \<Rightarrow> string \<Rightarrow> 'v arg list \<Rightarrow> hash" where
  "hash_of inspect digest type prop args = digest (key inspect (type, prop, args))"

section \<open>Eviction: \<^verbatim>\<open>purge\<close>\<close>

text \<open>
  The callback of \<^verbatim>\<open>cache.forEach\<close> in \<^verbatim>\<open>purge\<close>. It deletes only the entry it is
  visiting, so the iteration visits exactly the entries present when it starts. The
  accumulator is the map, \<^verbatim>\<open>oldest\<close> and the number of purge events logged.
\<close>

type_synonym 'd scan = "'d store \<times> (hash \<times> expiry) option \<times> nat"

fun purge_scan :: "int \<Rightarrow> 'd store \<Rightarrow> 'd scan \<Rightarrow> 'd scan" where
  "purge_scan now [] acc = acc"
| "purge_scan now ((h, it) # es) (c, oldest, n) =
     (if truthy (expires it) \<and> to_number (expires it) \<le> now
      then purge_scan now es (AList.delete h c, oldest, Suc n)
      else if (case oldest of None \<Rightarrow> True
               | Some (oh, oe) \<Rightarrow> to_number (expires it) < to_number oe)
      then purge_scan now es (c, Some (h, expires it), n)
      else purge_scan now es (c, oldest, n))"

text \<open>The step after the loop: \<^verbatim>\<open>if (cache.size > limit && oldest)\<close>.\<close>

fun purge_evict :: "int \<Rightarrow> 'd scan \<Rightarrow> 'd store \<times> nat" where
  "purge_evict lim (c, None, n) = (c, n)"
| "purge_evict lim (c, Some (oh, oe), n) =
     (if int (length c) > lim then (AList.delete oh c, Suc n) else (c, n))"

definition purge_store :: "int \<Rightarrow> int \<Rightarrow> 'd store \<Rightarrow> 'd store \<times> nat" where
  "purge_store now lim c = purge_evict lim (purge_scan now c (c, None, 0))"

text \<open>
  The body of \<^verbatim>\<open>types.forEach\<close> in \<^verbatim>\<open>purge\<close> for one type. \<^verbatim>\<open>this.config[type]\<close> is read
  after the scan; destructuring it throws when the type has no configuration. The
  result is the raised error, if any, and the state as it is left.
\<close>

definition add_purged :: "nat \<Rightarrow> 'd cache_state \<Rightarrow> 'd cache_state" where
  "add_purged n st = st\<lparr>stats := (stats st)\<lparr>purged := purged (stats st) + n\<rparr>\<rparr>"

definition purge_type :: "int \<Rightarrow> string \<Rightarrow> 'd cache_state \<Rightarrow> error option \<times> 'd cache_state" where
  "purge_type now type st =
     (case map_of (cache st) type of
        None \<Rightarrow> (None, st)
      | Some c \<Rightarrow>
          (let (c1, oldest, n1) = purge_scan now c (c, None, 0);
               st1 = add_purged n1 (st\<lparr>cache := AList.update type c1 (cache st)\<rparr>)
           in case map_of (config st) type of
                None \<Rightarrow> (Some TypeError, st1)
              | Some cfg \<Rightarrow>
                  (let (c2, n2) = purge_evict (limit cfg) (c1, oldest, 0)
                   in (None, add_purged n2 (st1\<lparr>cache := AList.update type c2 (cache st1)\<rparr>)))))"

fun purge_types :: "int \<Rightarrow> string list \<Rightarrow> 'd cache_state \<Rightarrow> error option \<times> 'd cache_state" where
  "purge_types now [] st = (None, st)"
| "purge_types now (t # ts) st =
     (case purge_type now t st of
        (Some e, st1) \<Rightarrow> (Some e, st1)
      | (None, st1) \<Rightarrow> purge_types now ts st1)"

definition purge :: "int \<Rightarrow> string list \<Rightarrow> 'd cache_state \<Rightarrow> error option \<times> 'd cache_state" where
  "purge now modelNames st =
     purge_types now (if modelNames \<noteq> [] then modelNames else map fst (cache st)) st"

section \<open>Cascading invalidation: \<^verbatim>\<open>clear\<close>\<close>

text \<open>
  The \<^verbatim>\<open>while (queue.length)\<close> loop of \<^verbatim>\<open>clear\<close>. \<^verbatim>\<open>visited\<close> and \<^verbatim>\<open>typesToClear\<close> are
  JavaScript sets, kept here in insertion order; \<open>set_add\<close> is \<^verbatim>\<open>Set.prototype.add\<close>.
  \<^verbatim>\<open>visited.add(type)\<close> runs only where \<^verbatim>\<open>visited.has(type)\<close> is false, where it appends;
  it is written as the append, so that \<open>visited\<close> lists the types in the order in which
  the loop body ran for them, once for each run. The result is the pair of both sets
  when the queue is empty.
\<close>

definition set_add :: "'a \<Rightarrow> 'a list \<Rightarrow> 'a list" where
  "set_add x xs = (if x \<in> set xs then xs else xs @ [x])"

definition assoc_targets :: "(string \<times> string list) list \<Rightarrow> string set" where
  "assoc_targets g = (\<Union>p \<in> set g. set (snd p))"

text \<open>
  The \<^verbatim>\<open>forEach\<close> under \<^verbatim>\<open>if (this.associations.get(type))\<close>: it pushes every associated
  type that is not in \<^verbatim>\<open>visited\<close>, which already holds \<^verbatim>\<open>type\<close>.
\<close>

definition enqueue :: "(string \<times> string list) list \<Rightarrow> string \<Rightarrow> string list \<Rightarrow> string list
    \<Rightarrow> string list" where
  "enqueue g type visited queue =
     (case map_of g type of
        None \<Rightarrow> queue
      | Some as \<Rightarrow> queue @ filter (\<lambda>assocType. assocType \<notin> set (visited @ [type])) as)"

function clear_loop ::
  "(string \<times> string list) list \<Rightarrow> string list \<Rightarrow> string list \<Rightarrow> string list
     \<Rightarrow> string list \<times> string list" where
  "clear_loop g [] visited typesToClear = (visited, typesToClear)"
| "clear_loop g (type # queue) visited typesToClear =
     (if type \<in> set visited then clear_loop g queue visited typesToClear
      else clear_loop g (enqueue g type visited queue)
             (visited @ [type]) (set_add type typesToClear))"
  by pat_completeness auto

termination clear_loop
proof (relation "inv_image (less_than <*lex*> less_than)
    (\<lambda>(g, queue, visited, typesToClear).
       (card ((set queue \<union> assoc_targets g) - set visited), length queue))", goal_cases)
  case 1
  show ?case by (intro wf_inv_image wf_lex_prod wf_less_than)
next
  case (2 g type queue visited typesToClear)
  have "card ((set queue \<union> assoc_targets g) - set visited)
          \<le> card ((insert type (set queue) \<union> assoc_targets g) - set visited)"
    by (rule card_mono) (auto simp: assoc_targets_def)
  then show ?case by auto
next
  case (3 g type queue visited typesToClear)
  let ?q' = "enqueue g type visited queue"
  have targets: "set as \<subseteq> assoc_targets g" if "map_of g type = Some as" for as
    using that by (force simp: assoc_targets_def dest!: map_of_SomeD)
  have sub: "set ?q' \<subseteq> set queue \<union> assoc_targets g"
    using targets by (auto simp: enqueue_def split: option.splits)
  have "card ((set ?q' \<union> assoc_targets g) - set (visited @ [type]))
          < card ((insert type (set queue) \<union> assoc_targets g) - set visited)"
  proof (rule psubset_card_mono)
    show "finite ((insert type (set queue) \<union> assoc_targets g) - set visited)"
      by (simp add: assoc_targets_def)
    show "(set ?q' \<union> assoc_targets g) - set (visited @ [type])
            \<subset> (insert type (set queue) \<union> assoc_targets g) - set visited"
      using 3 sub by auto
  qed
  then show ?case by simp
qed

text \<open>\<^verbatim>\<open>this.cache[type].clear()\<close> under its guard \<^verbatim>\<open>if (this.cache[type])\<close>.\<close>

definition clear_type :: "string \<Rightarrow> 'd cache_state \<Rightarrow> 'd cache_state" where
  "clear_type type st =
     (case map_of (cache st) type of
        None \<Rightarrow> st
      | Some c \<Rightarrow> st\<lparr>cache := AList.update type [] (cache st)\<rparr>)"

definition clear_closure :: "'d cache_state \<Rightarrow> string list \<Rightarrow> string list" where
  "clear_closure st modelNames =
     snd (clear_loop (associations st)
            (if modelNames \<noteq> [] then modelNames else map fst (cache st)) [] [])"

definition clear :: "string list \<Rightarrow> 'd cache_state \<Rightarrow> 'd cache_state" where
  "clear modelNames st = fold clear_type (clear_closure st modelNames) st"

text \<open>\<^verbatim>\<open>size\<close>: the number of stored entries of the named types, expired or not.\<close>

definition size_of :: "string list \<Rightarrow> 'd cache_state \<Rightarrow> nat" where
  "size_of modelNames st =
     foldl (\<lambda>acc type. acc + (case map_of (cache st) type of None \<Rightarrow> 0 | Some c \<Rightarrow> length c)) 0
       (filter (\<lambda>type. map_of (cache st) type \<noteq> None)
          (if modelNames \<noteq> [] then modelNames else map fst (cache st)))"

section \<open>The association graph\<close>

text \<open>
  \<^verbatim>\<open>_addReverseAssociations\<close>: the body of the \<^verbatim>\<open>for ... of\<close> loop, then the loop. The
  array the loop iterates is the one \<^verbatim>\<open>_addAssociations\<close> has just stored for the model;
  the loop could push onto it only for the model itself, and there \<^verbatim>\<open>includes\<close> is
  already true, so the iterated list does not change.
\<close>

definition addReverse :: "string \<Rightarrow> string \<Rightarrow> (string \<times> string list) list
    \<Rightarrow> (string \<times> string list) list" where
  "addReverse modelName associatedModel g =
     (let g1 = (if map_of g associatedModel = None then AList.update associatedModel [] g else g)
      in case map_of g1 associatedModel of
           None \<Rightarrow> g1
         | Some ms \<Rightarrow> if modelName \<in> set ms then g1
                      else AList.update associatedModel (ms @ [modelName]) g1)"

definition addReverseAssociations :: "string \<Rightarrow> string list \<Rightarrow> (string \<times> string list) list
    \<Rightarrow> (string \<times> string list) list" where
  "addReverseAssociations modelName associatedModels g =
     fold (addReverse modelName) associatedModels g"

definition addAssociations :: "string \<Rightarrow> string list \<Rightarrow> (string \<times> string list) list
    \<Rightarrow> (string \<times> string list) list" where
  "addAssociations modelName associatedModels g = AList.update modelName associatedModels g"

text \<open>
  \<^verbatim>\<open>_registerAssociations(target)\<close>. \<open>assocs\<close> is \<^verbatim>\<open>target.associations\<close>: \<open>None\<close> when
  it is missing, otherwise for each association the value of \<^verbatim>\<open>association.target?.name\<close>,
  \<open>None\<close> when that is undefined. \<^verbatim>\<open>filter(Boolean)\<close> also drops the empty string.
\<close>

fun associated_names :: "string option list \<Rightarrow> string list" where
  "associated_names [] = []"
| "associated_names (None # as) = associated_names as"
| "associated_names (Some n # as) = (if n = [] then associated_names as else n # associated_names as)"

definition registerAssociations :: "string \<Rightarrow> string option list option
    \<Rightarrow> (string \<times> string list) list \<Rightarrow> (string \<times> string list) list" where
  "registerAssociations name assocs g =
     (case assocs of
        None \<Rightarrow> g
      | Some as \<Rightarrow>
          (let associatedModels = associated_names as
           in if associatedModels = [] then g
              else addReverseAssociations name associatedModels
                     (addAssociations name associatedModels g)))"

definition register_model :: "string \<Rightarrow> string option list option
    \<Rightarrow> 'd cache_state \<Rightarrow> 'd cache_state" where
  "register_model name assocs st =
     st\<lparr>associations := registerAssociations name assocs (associations st)\<rparr>"

section \<open>Interception: \<^verbatim>\<open>init\<close> and its proxy\<close>

text \<open>
  \<^verbatim>\<open>init(model)\<close> installs an empty map for a configured type and logs \<^verbatim>\<open>init\<close>. The
  proxy it returns keeps that map in the variable \<^verbatim>\<open>cache\<close>; the model reads it back as
  \<^verbatim>\<open>this.cache[type]\<close>, the same object as long as the model is initialised once.
\<close>

definition init :: "string \<Rightarrow> 'd cache_state \<Rightarrow> 'd cache_state" where
  "init type st =
     log EvInit (case map_of (config st) type of
                   None \<Rightarrow> st
                 | Some cfg \<Rightarrow> st\<lparr>cache := AList.update type [] (cache st)\<rparr>)"

definition store_of :: "'d cache_state \<Rightarrow> string \<Rightarrow> 'd store" where
  "store_of st type = (case map_of (cache st) type of None \<Rightarrow> [] | Some c \<Rightarrow> c)"

text \<open>
  The \<^verbatim>\<open>get\<close> trap of the model proxy: what the access returns, and the state after
  it. \<open>associate_is_function\<close> is \<^verbatim>\<open>typeof target.associate === 'function'\<close>.
\<close>

datatype access =
  AssociateWrapper | NoCacheFn | ClearCacheFn | ClearCacheAllFn | Original | Intercepted

definition proxy_get :: "bool \<Rightarrow> string \<Rightarrow> string \<Rightarrow> 'd cache_state \<Rightarrow> access \<times> 'd cache_state" where
  "proxy_get associate_is_function type prop st =
     (if prop = ''associate'' \<and> associate_is_function then (AssociateWrapper, st)
      else if prop = ''noCache'' then (NoCacheFn, st)
      else if prop = ''clearCache'' then (ClearCacheFn, st)
      else if prop = ''clearCacheAll'' then (ClearCacheAllFn, st)
      else case map_of (config st) type of
             None \<Rightarrow> (Original, st)
           | Some cfg \<Rightarrow>
               if prop \<notin> set (methods cfg @ methodsUpdate cfg) then (Original, st)
               else if prop \<in> set (methodsUpdate cfg)
               then (Original, if clearOnUpdate cfg then clear [type] st else st)
               else (Intercepted, st))"

text \<open>
  \<^verbatim>\<open>args.reduce((acc, { transaction }) => acc || transaction, false)\<close>: the callback
  destructures every argument, whatever the accumulator holds.
\<close>

fun withinTxn :: "'v arg list \<Rightarrow> bool \<Rightarrow> error + bool" where
  "withinTxn [] acc = Inr acc"
| "withinTxn (ArgVal txn v # args) acc = withinTxn args (acc \<or> txn)"
| "withinTxn (ArgUndefined # args) acc = Inl TypeError"
| "withinTxn (ArgNull # args) acc = Inl TypeError"

text \<open>\<^verbatim>\<open>cache.get(hash)\<close> and the test \<^verbatim>\<open>!expires || expires > Date.now()\<close>.\<close>

definition cache_lookup :: "'d store \<Rightarrow> hash \<Rightarrow> int \<Rightarrow> 'd option" where
  "cache_lookup c h now =
     (case map_of c h of
        None \<Rightarrow> None
      | Some it \<Rightarrow> if \<not> truthy (expires it) \<or> to_number (expires it) > now
                   then Some (data it) else None)"

text \<open>\<^verbatim>\<open>ttl > 0 ? Date.now() + ttl * 1000 : false\<close>; \<^verbatim>\<open>false > 0\<close> is false.\<close>

fun expires_at :: "ttl \<Rightarrow> int \<Rightarrow> expiry" where
  "expires_at TtlFalse now = EFalse"
| "expires_at (TtlNum s) now = (if s > 0 then ENum (now + s * 1000) else EFalse)"

definition cache_set :: "string \<Rightarrow> hash \<Rightarrow> 'd item \<Rightarrow> 'd cache_state \<Rightarrow> 'd cache_state" where
  "cache_set type h it st =
     st\<lparr>cache := AList.update type (AList.update h it (store_of st type)) (cache st)\<rparr>"

text \<open>
  The callback of \<^verbatim>\<open>promise.then\<close>, run when the underlying operation resolves with
  \<open>v\<close>: the value the callback returns or the error it raises, and the state after it.
  \<open>now\<close> is the reading of \<^verbatim>\<open>Date.now()\<close> in the callback and \<open>nowp\<close> the one that
  \<^verbatim>\<open>purge\<close> takes when the callback calls it.
\<close>

definition on_resolved ::
  "string \<Rightarrow> type_config \<Rightarrow> hash \<Rightarrow> int \<Rightarrow> int \<Rightarrow> 'd jsval \<Rightarrow> 'd cache_state
     \<Rightarrow> 'd settled \<times> 'd cache_state" where
  "on_resolved type cfg h now nowp v st =
     (case v of
        Val d \<Rightarrow>
          (let st1 = log EvLoad
                 (cache_set type h \<lparr>data = d, expires = expires_at (ttl cfg) now\<rparr> st)
           in if int (length (store_of st1 type)) > limit cfg
              then (case purge nowp [type] st1 of
                      (None, st2) \<Rightarrow> (Resolved v, st2)
                    | (Some e, st2) \<Rightarrow> (Rejected e, st2))
              else (Resolved v, st1))
      | _ \<Rightarrow> (Resolved v, st))"

text \<open>
  \<^verbatim>\<open>target[prop](...args)\<close> followed by \<^verbatim>\<open>assert(promise.then, ...)\<close>: the promise, or
  the error raised.
\<close>

fun call_target :: "'d returned \<Rightarrow> error + 'd settled" where
  "call_target RetThrows = Inl UnderlyingFailure"
| "call_target RetNullish = Inl TypeError"
| "call_target RetPlain = Inl AssertionError"
| "call_target (RetPromise p) = Inr p"

text \<open>
  The intercepting function \<^verbatim>\<open>fn\<close> of a cacheable method, called at time \<open>now\<close>; when
  the underlying operation is reached and resolves, the callback runs with the clock
  readings \<open>now'\<close> and \<open>now''\<close>, with no other call in between. The result is how the
  promise of \<^verbatim>\<open>fn\<close> settles, whether \<^verbatim>\<open>target[prop]\<close> was called, and the state after.
\<close>

definition fn ::
  "'v inspect \<Rightarrow> (string \<Rightarrow> hash) \<Rightarrow> (string \<Rightarrow> 'v arg list \<Rightarrow> 'd returned)
     \<Rightarrow> string \<Rightarrow> type_config \<Rightarrow> string \<Rightarrow> 'v arg list \<Rightarrow> int \<Rightarrow> int \<Rightarrow> int
     \<Rightarrow> 'd cache_state \<Rightarrow> 'd settled \<times> bool \<times> 'd cache_state" where
  "fn inspect digest target type cfg prop args now now' now'' st =
     (case withinTxn args False of
        Inl e \<Rightarrow> (Rejected e, False, st)
      | Inr True \<Rightarrow>
          (case call_target (target prop args) of
             Inl e \<Rightarrow> (Rejected e, True, st)
           | Inr p \<Rightarrow> (p, True, st))
      | Inr False \<Rightarrow>
          (let h = hash_of inspect digest type prop args
           in case cache_lookup (store_of st type) h now of
                Some d \<Rightarrow> (Resolved (Val d), False, log EvHit st)
              | None \<Rightarrow>
                  (let st1 = log EvMiss st
                   in case call_target (target prop args) of
                        Inl e \<Rightarrow> (Rejected e, True, st1)
                      | Inr (Rejected e) \<Rightarrow> (Rejected e, True, st1)
                      | Inr (Resolved v) \<Rightarrow>
                          (let (r, st2) = on_resolved type cfg h now' now'' v st1
                           in (r, True, st2)))))"

section \<open>Vocabulary of the properties\<close>

text \<open>
  An entry is expired for \<^verbatim>\<open>purge\<close> when \<^verbatim>\<open>expires && expires <= now\<close>; the survivors
  of a scan are the entries that are not. \<open>older\<close> is the test
  \<^verbatim>\<open>!oldest || expires < oldest.expires\<close>.
\<close>

definition expired :: "int \<Rightarrow> 'd item \<Rightarrow> bool" where
  "expired now it = (truthy (expires it) \<and> to_number (expires it) \<le> now)"

definition survivors :: "int \<Rightarrow> 'd store \<Rightarrow> 'd store" where
  "survivors now c = filter (\<lambda>p. \<not> expired now (snd p)) c"

definition older :: "expiry \<Rightarrow> (hash \<times> expiry) option \<Rightarrow> bool" where
  "older e oldest = (case oldest of None \<Rightarrow> True | Some (oh, oe) \<Rightarrow> to_number e < to_number oe)"

text \<open>
  An entry is live at \<open>now\<close> when its expiry is \<^verbatim>\<open>false\<close> or a later time. A store is
  \<open>store_ok\<close> when no expiry in it is the number \<open>0\<close>, the one number that JavaScript
  takes for false; \<^verbatim>\<open>fn\<close> writes no such expiry while the clock is not negative
  (\<open>store_ok_on_resolved\<close> below).
\<close>

definition live :: "int \<Rightarrow> 'd item \<Rightarrow> bool" where
  "live now it = (expires it = EFalse \<or> (\<exists>t. expires it = ENum t \<and> now < t))"

definition store_ok :: "'d store \<Rightarrow> bool" where
  "store_ok c = (\<forall>p \<in> set c. expires (snd p) \<noteq> ENum 0)"

text \<open>
  The edges of the association map, and the types reachable from a set of roots along
  them (the roots included).
\<close>

definition edges :: "(string \<times> string list) list \<Rightarrow> (string \<times> string) set" where
  "edges g = {(a, b). \<exists>bs. map_of g a = Some bs \<and> b \<in> set bs}"

definition reachable :: "(string \<times> string list) list \<Rightarrow> string set \<Rightarrow> string set" where
  "reachable g roots = (edges g)\<^sup>* `` roots"

definition clear_roots :: "'d cache_state \<Rightarrow> string list \<Rightarrow> string list" where
  "clear_roots st modelNames = (if modelNames \<noteq> [] then modelNames else map fst (cache st))"

section \<open>Concrete inputs\<close>

definition ex_config :: type_config where
  "ex_config = \<lparr>ttl = TtlNum 5, methods = [''findOne''], methodsUpdate = [''update''],
     limit = 2, clearOnUpdate = True\<rparr>"

definition ex_cycle :: "(string \<times> string list) list" where
  "ex_cycle = [(''A'', [''B'', ''C'']), (''B'', [''A'', ''C'']), (''C'', [''A'', ''B''])]"

definition ex_state :: "string cache_state" where
  "ex_state = \<lparr>config = [(''A'', ex_config), (''B'', ex_config), (''C'', ex_config)],
     cache = [(''A'', [(''A.findOne'', \<lparr>data = ''a1'', expires = ENum 500\<rparr>)]),
              (''B'', [(''B.findOne'', \<lparr>data = ''b1'', expires = EFalse\<rparr>)]),
              (''C'', [(''C.findOne'', \<lparr>data = ''c1'', expires = ENum 500\<rparr>)])],
     associations = [(''A'', [''B'']), (''B'', [''A''])],
     stats = \<lparr>hit = 0, miss = 0, load = 0, purged = 0\<rparr>\<rparr>"

definition ex_cycle_state :: "string cache_state" where
  "ex_cycle_state = ex_state\<lparr>associations := ex_cycle\<rparr>"

definition ex_inspect :: "unit inspect" where
  "ex_inspect obj = fst obj @ ''.'' @ fst (snd obj)"

definition ex_digest :: "string \<Rightarrow> hash" where
  "ex_digest k = k"

definition ex_target :: "string \<Rightarrow> unit arg list \<Rightarrow> string returned" where
  "ex_target prop args = RetPromise (Resolved (Val ''row''))"

definition ex_target_plain :: "string \<Rightarrow> unit arg list \<Rightarrow> string returned" where
  "ex_target_plain prop args = RetPlain"

definition ex_fresh :: "string store" where
  "ex_fresh = [(''h1'', \<lparr>data = ''a'', expires = ENum 700\<rparr>),
               (''h2'', \<lparr>data = ''b'', expires = ENum 600\<rparr>),
               (''h3'', \<lparr>data = ''c'', expires = ENum 900\<rparr>)]"

definition ex_mixed :: "string store" where
  "ex_mixed = [(''h1'', \<lparr>data = ''a'', expires = ENum 500\<rparr>),
               (''h2'', \<lparr>data = ''b'', expires = EFalse\<rparr>)]"

text \<open>
  The association map as the code builds it from empty: C registers its association to
  A, then A registers its association to B.
\<close>

definition ex_unregistered :: "string cache_state" where
  "ex_unregistered = ex_state\<lparr>associations := []\<rparr>"

definition ex_registered :: "string cache_state" where
  "ex_registered =
     register_model ''A'' (Some [Some ''B''])
       (register_model ''C'' (Some [Some ''A'']) ex_unregistered)"

section \<open>Lemmas\<close>

lemma purge_scan_Cons:
  "purge_scan now ((h, it) # es) (c, oldest, n) =
     (if expired now it then purge_scan now es (AList.delete h c, oldest, Suc n)
      else if older (expires it) oldest then purge_scan now es (c, Some (h, expires it), n)
      else purge_scan now es (c, oldest, n))"
  by (simp add: expired_def older_def)

lemma scan_store:
  "fst (purge_scan now es (c, oldest, n))
     = filter (\<lambda>p. fst p \<notin> fst ` {q \<in> set es. expired now (snd q)}) c"
proof (induction es arbitrary: c oldest n)
  case Nil
  show ?case by simp
next
  case (Cons x es)
  obtain h it where x: "x = (h, it)" by (cases x)
  show ?case
  proof (cases "expired now it")
    case True
    then have "fst (purge_scan now (x # es) (c, oldest, n))
        = filter (\<lambda>p. fst p \<notin> fst ` {q \<in> set es. expired now (snd q)}) (AList.delete h c)"
      unfolding x purge_scan_Cons using Cons.IH by simp
    also have "\<dots> = filter (\<lambda>p. fst p \<notin> fst ` {q \<in> set (x # es). expired now (snd q)}) c"
      using True unfolding x AList.delete_eq filter_filter
      by (intro filter_cong refl) force
    finally show ?thesis .
  next
    case False
    then have "{q \<in> set (x # es). expired now (snd q)} = {q \<in> set es. expired now (snd q)}"
      by (auto simp: x)
    with False Cons.IH show ?thesis
      unfolding x purge_scan_Cons by simp
  qed
qed

lemma scan_count:
  "snd (snd (purge_scan now es (c, oldest, n)))
     = n + length (filter (\<lambda>p. expired now (snd p)) es)"
proof (induction es arbitrary: c oldest n)
  case Nil
  show ?case by simp
next
  case (Cons x es)
  obtain h it where x: "x = (h, it)" by (cases x)
  from Cons.IH show ?case unfolding x purge_scan_Cons by simp
qed

lemma scan_self:
  assumes "distinct (map fst c)"
  shows "fst (purge_scan now c (c, None, 0)) = survivors now c"
proof -
  have "(fst p \<notin> fst ` {q \<in> set c. expired now (snd q)}) = (\<not> expired now (snd p))"
    if "p \<in> set c" for p
  proof -
    have "q = p" if "q \<in> set c" "fst q = fst p" for q
      using assms that \<open>p \<in> set c\<close> by (metis eq_key_imp_eq_value prod.collapse)
    with that show ?thesis by force
  qed
  then show ?thesis
    unfolding scan_store survivors_def by (intro filter_cong refl) 
qed

lemma scan_oldest_Some:
  "(\<exists>h e. fst (snd (purge_scan now es (c, oldest, n))) = Some (h, e))
     \<longleftrightarrow> oldest \<noteq> None \<or> (\<exists>p \<in> set es. \<not> expired now (snd p))"
proof (induction es arbitrary: c oldest n)
  case Nil
  show ?case by simp
next
  case (Cons x es)
  obtain h it where x: "x = (h, it)" by (cases x)
  show ?case
  proof (cases "expired now it")
    case True
    then show ?thesis unfolding x purge_scan_Cons by (simp add: Cons.IH)
  next
    case False
    have "\<exists>a b. oldest = Some (a, b)" if "\<not> older (expires it) oldest"
      using that by (cases oldest) (auto simp: older_def)
    with False show ?thesis unfolding x purge_scan_Cons by (auto simp: Cons.IH)
  qed
qed

lemma scan_oldest_mem:
  "fst (snd (purge_scan now es (c, oldest, n))) = Some (h, e)
     \<Longrightarrow> oldest = Some (h, e) \<or> (\<exists>it. (h, it) \<in> set es \<and> \<not> expired now it \<and> expires it = e)"
proof (induction es arbitrary: c oldest n)
  case Nil
  then show ?case by simp
next
  case (Cons x es)
  obtain h1 it1 where x: "x = (h1, it1)" by (cases x)
  from Cons.prems Cons.IH show ?case
    unfolding x purge_scan_Cons by (fastforce split: if_splits)
qed

lemma scan_oldest_min:
  "fst (snd (purge_scan now es (c, oldest, n))) = Some (h, e)
     \<Longrightarrow> (\<forall>p \<in> set es. \<not> expired now (snd p) \<longrightarrow> to_number e \<le> to_number (expires (snd p)))
       \<and> (\<forall>oh oe. oldest = Some (oh, oe) \<longrightarrow> to_number e \<le> to_number oe)"
proof (induction es arbitrary: c oldest n)
  case Nil
  then show ?case by simp
next
  case (Cons x es)
  obtain h1 it1 where x: "x = (h1, it1)" by (cases x)
  show ?case
  proof (cases "expired now it1")
    case True
    with Cons.prems Cons.IH [of "AList.delete h1 c" oldest "Suc n"] show ?thesis
      unfolding x purge_scan_Cons by simp
  next
    case False
    show ?thesis
    proof (cases "older (expires it1) oldest")
      case True
      with False Cons.prems have
        "fst (snd (purge_scan now es (c, Some (h1, expires it1), n))) = Some (h, e)"
        unfolding x purge_scan_Cons by simp
      from Cons.IH [OF this] True show ?thesis
        by (auto simp: x older_def split: option.splits)
    next
      case no: False
      with False Cons.prems have
        "fst (snd (purge_scan now es (c, oldest, n))) = Some (h, e)"
        unfolding x purge_scan_Cons by simp
      from Cons.IH [OF this] no show ?thesis
        by (auto simp: x older_def split: option.splits)
    qed
  qed
qed

lemma length_delete_present:
  "distinct (map fst c) \<Longrightarrow> (h, it) \<in> set c \<Longrightarrow> length (AList.delete h c) + 1 = length c"
proof (induction c)
  case Nil
  then show ?case by simp
next
  case (Cons x c)
  obtain k v where x: "x = (k, v)" by (cases x)
  show ?case
  proof (cases "k = h")
    case True
    with Cons.prems have "h \<notin> fst ` set c" by (auto simp: x)
    then have "AList.delete h c = c" by simp
    with True show ?thesis by (simp add: x)
  next
    case False
    with Cons show ?thesis by (auto simp: x)
  qed
qed

lemma scan_oldest_keep:
  assumes "\<forall>p \<in> set es. \<not> expired now (snd p) \<longrightarrow> 0 \<le> to_number (expires (snd p))"
    and "to_number oe \<le> 0"
  shows "fst (snd (purge_scan now es (c, Some (oh, oe), n))) = Some (oh, oe)"
  using assms
proof (induction es arbitrary: c n)
  case Nil
  show ?case by simp
next
  case (Cons x es)
  obtain h it where x: "x = (h, it)" by (cases x)
  have "\<not> older (expires it) (Some (oh, oe))" if "\<not> expired now it"
    using that Cons.prems by (auto simp: x older_def)
  with Cons show ?case unfolding x purge_scan_Cons by simp
qed

lemma scan_oldest_first_never:
  assumes "\<forall>p \<in> set es. \<not> expired now (snd p) \<longrightarrow> 0 \<le> to_number (expires (snd p))"
    and "\<forall>p \<in> set es. expires (snd p) \<noteq> ENum 0"
    and "find (\<lambda>p. expires (snd p) = EFalse) es = Some (h, it)"
    and "\<forall>oh oe. oldest = Some (oh, oe) \<longrightarrow> 0 < to_number oe"
  shows "fst (snd (purge_scan now es (c, oldest, n))) = Some (h, EFalse)"
  using assms
proof (induction es arbitrary: c oldest n)
  case Nil
  then show ?case by simp
next
  case (Cons x es)
  obtain h1 it1 where x: "x = (h1, it1)" by (cases x)
  have rest: "\<forall>p \<in> set es. \<not> expired now (snd p) \<longrightarrow> 0 \<le> to_number (expires (snd p))"
    "\<forall>p \<in> set es. expires (snd p) \<noteq> ENum 0"
    using Cons.prems by auto
  show ?case
  proof (cases "expires it1")
    case EFalse
    then have hd: "h1 = h" "it1 = it" "\<not> expired now it1"
      using Cons.prems(3) by (auto simp: x expired_def)
    have "older (expires it1) oldest"
      using Cons.prems(4) EFalse by (cases oldest) (auto simp: older_def)
    with hd EFalse scan_oldest_keep [OF rest(1), where oe = EFalse and oh = h and c = c and n = n] show ?thesis
      unfolding x purge_scan_Cons by simp
  next
    case (ENum t)
    then have find: "find (\<lambda>p. expires (snd p) = EFalse) es = Some (h, it)"
      using Cons.prems(3) by (simp add: x)
    show ?thesis
    proof (cases "expired now it1")
      case True
      with Cons.IH [OF rest find Cons.prems(4)] show ?thesis
        unfolding x purge_scan_Cons by simp
    next
      case False
      with Cons.prems(1,2) ENum have "0 < t"
        by (force simp: x)
      then have "\<forall>oh oe. Some (h1, expires it1) = Some (oh, oe) \<longrightarrow> 0 < to_number oe"
        using ENum by simp
      from Cons.IH [OF rest find this] Cons.IH [OF rest find Cons.prems(4)] False
      show ?thesis unfolding x purge_scan_Cons by simp
    qed
  qed
qed

lemma survivors_nonneg:
  assumes "0 \<le> now" and "p \<in> set c" and "\<not> expired now (snd p)"
  shows "0 \<le> to_number (expires (snd p))"
  using assms by (cases "expires (snd p)") (auto simp: expired_def)

lemma purge_store_unfold:
  assumes "distinct (map fst c)"
  shows "purge_store now lim c =
     purge_evict lim (survivors now c, fst (snd (purge_scan now c (c, None, 0))),
        length (filter (\<lambda>p. expired now (snd p)) c))"
proof -
  have "purge_scan now c (c, None, 0) = (fst (purge_scan now c (c, None, 0)),
      fst (snd (purge_scan now c (c, None, 0))), snd (snd (purge_scan now c (c, None, 0))))"
    by simp
  then show ?thesis
    unfolding purge_store_def by (metis scan_self [OF assms] scan_count add_0)
qed


lemma set_set_add [simp]: "set (set_add x xs) = insert x (set xs)"
  by (auto simp: set_add_def)

lemma distinct_set_add [simp]: "distinct (set_add x xs) = distinct xs"
  by (auto simp: set_add_def)

lemma clear_loop_Cons_visited:
  "type \<in> set visited \<Longrightarrow>
     clear_loop g (type # queue) visited typesToClear = clear_loop g queue visited typesToClear"
  by simp

lemma clear_loop_Cons_new:
  "type \<notin> set visited \<Longrightarrow>
     clear_loop g (type # queue) visited typesToClear =
       clear_loop g (enqueue g type visited queue) (visited @ [type]) (set_add type typesToClear)"
  by simp

lemma clear_loop_induct [consumes 0, case_names Nil Visited New]:
  assumes "\<And>g visited typesToClear. P g [] visited typesToClear"
    and "\<And>g type queue visited typesToClear.
           type \<in> set visited \<Longrightarrow> P g queue visited typesToClear
             \<Longrightarrow> P g (type # queue) visited typesToClear"
    and "\<And>g type queue visited typesToClear.
           type \<notin> set visited
             \<Longrightarrow> P g (enqueue g type visited queue) (visited @ [type]) (set_add type typesToClear)
             \<Longrightarrow> P g (type # queue) visited typesToClear"
  shows "P g q v c"
proof (induction g q v c rule: clear_loop.induct)
  case (1 g visited typesToClear)
  show ?case by (rule assms(1))
next
  case (2 g type queue visited typesToClear)
  show ?case
  proof (cases "type \<in> set visited")
    case True
    with 2(1) assms(2) show ?thesis by blast
  next
    case False
    with 2(2) have "P g (enqueue g type visited queue) (visited @ [type]) (set_add type typesToClear)"
      by simp
    with False assms(3) show ?thesis by blast
  qed
qed

declare clear_loop.simps(2) [simp del]

lemma set_enqueue:
  "set (enqueue g type visited queue) = set queue \<union> (edges g `` {type} - set (visited @ [type]))"
  by (auto simp: enqueue_def edges_def split: option.splits)

lemma clear_loop_same:
  "c = v \<Longrightarrow> snd (clear_loop g q v c) = fst (clear_loop g q v c)"
proof (induction g q v c rule: clear_loop_induct)
  case (Nil g visited typesToClear)
  then show ?case by simp
next
  case (Visited g type queue visited typesToClear)
  then show ?case unfolding clear_loop_Cons_visited [OF Visited.hyps] by simp
next
  case (New g type queue visited typesToClear)
  have "set_add type typesToClear = visited @ [type]"
    using New.hyps New.prems by (simp add: set_add_def)
  from New.IH [OF this] show ?case unfolding clear_loop_Cons_new [OF New.hyps] .
qed

lemma clear_loop_distinct:
  "distinct v \<Longrightarrow> distinct (fst (clear_loop g q v c))"
proof (induction g q v c rule: clear_loop_induct)
  case (Nil g visited typesToClear)
  then show ?case by simp
next
  case (Visited g type queue visited typesToClear)
  then show ?case unfolding clear_loop_Cons_visited [OF Visited.hyps] by simp
next
  case (New g type queue visited typesToClear)
  then show ?case unfolding clear_loop_Cons_new [OF New.hyps] by simp
qed

lemma clear_loop_sound:
  "set (snd (clear_loop g q v c)) \<subseteq> set c \<union> (edges g)\<^sup>* `` set q"
proof (induction g q v c rule: clear_loop_induct)
  case (Nil g visited typesToClear)
  show ?case by simp
next
  case (Visited g type queue visited typesToClear)
  then show ?case unfolding clear_loop_Cons_visited [OF Visited.hyps] by auto
next
  case (New g type queue visited typesToClear)
  have "(edges g)\<^sup>* `` set (enqueue g type visited queue) \<subseteq> (edges g)\<^sup>* `` set (type # queue)"
    unfolding set_enqueue by (auto intro: converse_rtrancl_into_rtrancl)
  with New.IH show ?case unfolding clear_loop_Cons_new [OF New.hyps] by auto
qed

lemma clear_loop_complete:
  "set c = set v \<Longrightarrow> \<forall>x \<in> set v. edges g `` {x} \<subseteq> set v \<union> set q
     \<Longrightarrow> set v \<union> set q \<subseteq> set (snd (clear_loop g q v c))
       \<and> edges g `` set (snd (clear_loop g q v c)) \<subseteq> set (snd (clear_loop g q v c))"
proof (induction g q v c rule: clear_loop_induct)
  case (Nil g visited typesToClear)
  then show ?case by auto
next
  case (Visited g type queue visited typesToClear)
  have "\<forall>x \<in> set visited. edges g `` {x} \<subseteq> set visited \<union> set queue"
    using Visited.prems(2) Visited.hyps by auto
  from Visited.IH [OF Visited.prems(1) this] Visited.hyps show ?case
    unfolding clear_loop_Cons_visited [OF Visited.hyps] by auto
next
  case (New g type queue visited typesToClear)
  let ?q' = "enqueue g type visited queue"
  have inv: "\<forall>x \<in> set (visited @ [type]). edges g `` {x} \<subseteq> set (visited @ [type]) \<union> set ?q'"
  proof
    fix x assume "x \<in> set (visited @ [type])"
    then consider "x = type" | "x \<in> set visited" by auto
    then show "edges g `` {x} \<subseteq> set (visited @ [type]) \<union> set ?q'"
    proof cases
      case 1
      then show ?thesis unfolding set_enqueue by auto
    next
      case 2
      with New.prems(2) have "edges g `` {x} \<subseteq> set visited \<union> set (type # queue)" by blast
      then show ?thesis unfolding set_enqueue by auto
    qed
  qed
  have eq: "set (set_add type typesToClear) = set (visited @ [type])"
    using New.prems(1) by simp
  have "set queue \<subseteq> set ?q'" unfolding set_enqueue by auto
  with New.IH [OF eq inv] show ?case
    unfolding clear_loop_Cons_new [OF New.hyps] by auto
qed

lemma clear_loop_reachable:
  "set (snd (clear_loop g roots [] [])) = reachable g (set roots)"
proof
  show "set (snd (clear_loop g roots [] [])) \<subseteq> reachable g (set roots)"
    using clear_loop_sound [of g roots "[]" "[]"] by (simp add: reachable_def)
next
  let ?r = "set (snd (clear_loop g roots [] []))"
  have c: "set roots \<subseteq> ?r" "edges g `` ?r \<subseteq> ?r"
    using clear_loop_complete [of "[]" "[]" g roots] by auto
  have "y \<in> ?r" if "(x, y) \<in> (edges g)\<^sup>*" "x \<in> ?r" for x y
    using that c(2) by (induction rule: rtrancl_induct) auto
  with c(1) show "reachable g (set roots) \<subseteq> ?r"
    by (auto simp: reachable_def)
qed

lemma clear_type_cache:
  "map_of (cache (clear_type t st)) u =
     (if u = t then map_option (\<lambda>c. []) (map_of (cache st) u) else map_of (cache st) u)"
  by (auto simp: clear_type_def update_conv' split: option.splits)

lemma clear_type_other:
  "config (clear_type t st) = config st" "associations (clear_type t st) = associations st"
  "stats (clear_type t st) = stats st"
  by (auto simp: clear_type_def split: option.splits)

lemma fold_clear_type_cache:
  "map_of (cache (fold clear_type ts st)) u =
     (if u \<in> set ts then map_option (\<lambda>c. []) (map_of (cache st) u) else map_of (cache st) u)"
  by (induction ts arbitrary: st) (auto simp: clear_type_cache option.map_comp comp_def)

lemma fold_clear_type_other:
  "config (fold clear_type ts st) = config st"
  "associations (fold clear_type ts st) = associations st"
  "stats (fold clear_type ts st) = stats st"
  by (induction ts arbitrary: st) (auto simp: clear_type_other)


lemma withinTxn_nullish:
  "ArgNull \<in> set args \<or> ArgUndefined \<in> set args \<Longrightarrow> withinTxn args acc = Inl TypeError"
proof (induction args arbitrary: acc)
  case Nil
  then show ?case by simp
next
  case (Cons a args)
  then show ?case by (cases a) auto
qed

lemma withinTxn_values:
  "ArgNull \<notin> set args \<Longrightarrow> ArgUndefined \<notin> set args
     \<Longrightarrow> withinTxn args acc = Inr (acc \<or> (\<exists>v. ArgVal True v \<in> set args))"
proof (induction args arbitrary: acc)
  case Nil
  then show ?case by simp
next
  case (Cons a args)
  then show ?case by (cases a) auto
qed

lemma cache_lookup_live:
  assumes "store_ok c"
  shows "cache_lookup c h now = (case map_of c h of None \<Rightarrow> None
           | Some it \<Rightarrow> if live now it then Some (data it) else None)"
proof (cases "map_of c h")
  case None
  then show ?thesis by (simp add: cache_lookup_def)
next
  case (Some it)
  then have "(h, it) \<in> set c" by (rule map_of_SomeD)
  with assms have "expires it \<noteq> ENum 0" by (auto simp: store_ok_def)
  then have "(\<not> truthy (expires it) \<or> to_number (expires it) > now) = live now it"
    by (cases "expires it") (auto simp: live_def)
  with Some show ?thesis by (simp add: cache_lookup_def)
qed

lemma stats_add_purged [simp]:
  "hit (stats (add_purged n st)) = hit (stats st)"
  "miss (stats (add_purged n st)) = miss (stats st)"
  "load (stats (add_purged n st)) = load (stats st)"
  "config (add_purged n st) = config st"
  by (simp_all add: add_purged_def)

lemma purge_type_stats:
  "hit (stats (snd (purge_type now t st))) = hit (stats st)
   \<and> miss (stats (snd (purge_type now t st))) = miss (stats st)
   \<and> load (stats (snd (purge_type now t st))) = load (stats st)
   \<and> config (snd (purge_type now t st)) = config st"
  by (simp add: purge_type_def Let_def split: option.splits prod.splits)

lemma purge_types_stats:
  "hit (stats (snd (purge_types now ts st))) = hit (stats st)
   \<and> miss (stats (snd (purge_types now ts st))) = miss (stats st)
   \<and> load (stats (snd (purge_types now ts st))) = load (stats st)
   \<and> config (snd (purge_types now ts st)) = config st"
proof (induction ts arbitrary: st)
  case Nil
  show ?case by simp
next
  case (Cons t ts)
  show ?case
  proof (cases "purge_type now t st")
    case (Pair e st1)
    with purge_type_stats [of now t st] Cons [of st1] show ?thesis
      by (cases e) auto
  qed
qed

lemma purge_type_configured:
  "map_of (config st) t \<noteq> None \<Longrightarrow> fst (purge_type now t st) = None"
  by (auto simp: purge_type_def Let_def split: option.splits prod.splits)

lemma purge_one_configured:
  assumes "map_of (config st) t = Some cfg"
  shows "fst (purge now [t] st) = None"
proof (cases "purge_type now t st")
  case (Pair e st1)
  with purge_type_configured [of st t now] assms show ?thesis
    by (simp add: purge_def)
qed

lemma log_simps [simp]:
  "config (log ev st) = config st" "cache (log ev st) = cache st"
  "associations (log ev st) = associations st"
  "store_of (log ev st) t = store_of st t"
  by (simp_all add: log_def store_of_def)

lemma stats_log [simp]:
  "hit (stats (log EvHit st)) = hit (stats st) + 1" "miss (stats (log EvHit st)) = miss (stats st)"
  "hit (stats (log EvMiss st)) = hit (stats st)" "miss (stats (log EvMiss st)) = miss (stats st) + 1"
  "hit (stats (log EvLoad st)) = hit (stats st)" "miss (stats (log EvLoad st)) = miss (stats st)"
  "load (stats (log EvLoad st)) = load (stats st) + 1"
  by (simp_all add: log_def)

lemma cache_set_simps [simp]:
  "config (cache_set t h it st) = config st" "stats (cache_set t h it st) = stats st"
  "associations (cache_set t h it st) = associations st"
  "map_of (store_of (cache_set t h it st) t) h = Some it"
  by (simp_all add: cache_set_def store_of_def update_conv')

lemma on_resolved_stats:
  "hit (stats (snd (on_resolved type cfg h now nowp v st))) = hit (stats st)
   \<and> miss (stats (snd (on_resolved type cfg h now nowp v st))) = miss (stats st)"
proof (cases v)
  case (Val d)
  let ?st1 = "log EvLoad (cache_set type h \<lparr>data = d, expires = expires_at (ttl cfg) now\<rparr> st)"
  obtain e st2 where p: "purge nowp [type] ?st1 = (e, st2)" by (cases "purge nowp [type] ?st1")
  have "hit (stats st2) = hit (stats st) \<and> miss (stats st2) = miss (stats st)"
    using purge_types_stats [of nowp "[type]" ?st1] p by (simp add: purge_def)
  with Val p show ?thesis
    by (cases e) (simp_all add: on_resolved_def Let_def)
qed (simp_all add: on_resolved_def)


text \<open>
  \<^verbatim>\<open>purge\<close> on a type that has a store and a configuration runs \<open>purge_store\<close> on that
  store, with the limit of the type, and counts one purge event for each deletion.
\<close>

lemma purge_evict_count:
  "purge_evict lim (c, oldest, n) =
     (fst (purge_evict lim (c, oldest, 0)), n + snd (purge_evict lim (c, oldest, 0)))"
  by (cases oldest) auto

lemma purge_type_store:
  assumes "map_of (cache st) t = Some c" and "map_of (config st) t = Some cfg"
  shows "purge_type now t st =
           (None, add_purged (snd (purge_store now (limit cfg) c))
                    (st\<lparr>cache := AList.update t (fst (purge_store now (limit cfg) c)) (cache st)\<rparr>))"
proof -
  obtain c1 oldest n1 where scan: "purge_scan now c (c, None, 0) = (c1, oldest, n1)"
    by (cases "purge_scan now c (c, None, 0)")
  obtain c2 n2 where ev: "purge_evict (limit cfg) (c1, oldest, 0) = (c2, n2)"
    by (cases "purge_evict (limit cfg) (c1, oldest, 0)")
  have ps: "purge_store now (limit cfg) c = (c2, n1 + n2)"
    unfolding purge_store_def scan using purge_evict_count [of "limit cfg" c1 oldest n1] ev by simp
  show ?thesis
    using assms scan ev unfolding ps
    by (simp add: purge_type_def add_purged_def add.commute)
qed

lemma expires_at_nonzero: "0 \<le> now \<Longrightarrow> expires_at t now \<noteq> ENum 0"
  by (cases t) auto

lemma purge_evict_subset: "set (fst (purge_evict lim (c, oldest, n))) \<subseteq> set c"
  by (cases oldest) (auto simp: AList.delete_eq split: if_splits)

lemma set_update_subset: "set (AList.update k v al) \<subseteq> insert (k, v) (set al)"
  by (induction al) auto

lemma store_of_update [simp]:
  "store_of (st\<lparr>cache := AList.update t c (cache st)\<rparr>) t = c"
  by (simp add: store_of_def update_conv')

lemma store_of_add_purged [simp]: "store_of (add_purged n st) t = store_of st t"
  by (simp add: store_of_def add_purged_def)

lemma purge_type_subset:
  "set (store_of (snd (purge_type now t st)) t) \<subseteq> set (store_of st t)"
proof (cases "map_of (cache st) t")
  case None
  then show ?thesis by (simp add: purge_type_def)
next
  case (Some c)
  obtain c1 oldest n1 where scan: "purge_scan now c (c, None, 0) = (c1, oldest, n1)"
    by (cases "purge_scan now c (c, None, 0)")
  have c1: "set c1 \<subseteq> set c"
    using scan_store [of now c c None 0] scan by auto
  have c: "store_of st t = c" using Some by (simp add: store_of_def)
  show ?thesis
  proof (cases "map_of (config st) t")
    case None
    with Some scan c1 c show ?thesis by (simp add: purge_type_def)
  next
    case (Some cfg)
    obtain c2 n2 where ev: "purge_evict (limit cfg) (c1, oldest, 0) = (c2, n2)"
      by (cases "purge_evict (limit cfg) (c1, oldest, 0)")
    have "set c2 \<subseteq> set c1"
      using purge_evict_subset [of "limit cfg" c1 oldest 0] ev by simp
    with \<open>map_of (cache st) t = Some c\<close> Some scan ev c1 c show ?thesis
      by (simp add: purge_type_def add_purged_def store_of_def update_conv')
  qed
qed

lemma store_ok_on_resolved:
  assumes "0 \<le> now" and "store_ok (store_of st type)"
  shows "store_ok (store_of (snd (on_resolved type cfg h now nowp v st)) type)"
proof (cases v)
  case (Val d)
  let ?it = "\<lparr>data = d, expires = expires_at (ttl cfg) now\<rparr>"
  let ?st1 = "log EvLoad (cache_set type h ?it st)"
  have "set (store_of ?st1 type) \<subseteq> insert (h, ?it) (set (store_of st type))"
    using set_update_subset [of h ?it "store_of st type"]
    by (simp add: cache_set_def store_of_def update_conv')
  with assms expires_at_nonzero [OF assms(1), of "ttl cfg"] have ok1: "store_ok (store_of ?st1 type)"
    by (auto simp: store_ok_def)
  obtain e st2 where p: "purge nowp [type] ?st1 = (e, st2)" by (cases "purge nowp [type] ?st1")
  have "st2 = snd (purge_type nowp type ?st1)"
    using p by (cases "purge_type nowp type ?st1"; cases "fst (purge_type nowp type ?st1)")
      (auto simp: purge_def)
  with purge_type_subset [of nowp type ?st1] ok1 have "store_ok (store_of st2 type)"
    by (auto simp: store_ok_def)
  with Val p ok1 show ?thesis
    by (cases e) (simp_all add: on_resolved_def Let_def)
qed (simp_all add: on_resolved_def assms)

text \<open>
  What the invalidating branch of the \<^verbatim>\<open>get\<close> trap does on a given association map: it
  returns the original member and clears the types reachable from the model along the
  edges the map holds.
\<close>

lemma proxy_get_invalidating:
  assumes "map_of (config st) type = Some cfg" and "clearOnUpdate cfg"
    and "prop \<in> set (methodsUpdate cfg)"
    and "prop \<notin> {''noCache'', ''clearCache'', ''clearCacheAll''}"
    and "\<not> (prop = ''associate'' \<and> associate_is_function)"
  shows "proxy_get associate_is_function type prop st = (Original, clear [type] st)
     \<and> type \<in> reachable (associations st) {type}
     \<and> (\<forall>bs b. map_of (associations st) type = Some bs \<and> b \<in> set bs
           \<longrightarrow> b \<in> reachable (associations st) {type})
     \<and> (\<forall>t \<in> reachable (associations st) {type}.
           map_of (cache (clear [type] st)) t = map_option (\<lambda>c. []) (map_of (cache st) t))
     \<and> (\<forall>t. t \<notin> reachable (associations st) {type}
           \<longrightarrow> map_of (cache (clear [type] st)) t = map_of (cache st) t)"
proof -
  have A: "proxy_get associate_is_function type prop st = (Original, clear [type] st)"
    using assms by (auto simp: proxy_get_def)
  have closure: "set (clear_closure st [type]) = reachable (associations st) {type}"
    unfolding clear_closure_def using clear_loop_reachable [of "associations st" "[type]"] by simp
  have B: "type \<in> reachable (associations st) {type}"
    by (simp add: reachable_def)
  have C: "b \<in> reachable (associations st) {type}"
    if "map_of (associations st) type = Some bs" "b \<in> set bs" for bs b
  proof -
    from that have "(type, b) \<in> edges (associations st)" by (auto simp: edges_def)
    then show ?thesis by (auto simp: reachable_def)
  qed
  have D: "map_of (cache (clear [type] st)) t =
      (if t \<in> reachable (associations st) {type} then map_option (\<lambda>c. []) (map_of (cache st) t)
       else map_of (cache st) t)" for t
    unfolding clear_def fold_clear_type_cache closure ..
  from A B C D show ?thesis by simp
qed

section \<open>The claims\<close>

text \<open>
  C1. A cacheable call that reaches the lookup (no argument is null or undefined and none
  carries a transaction) is a hit exactly when the store of its type holds an entry under
  the hash of the call whose expiry is \<^verbatim>\<open>false\<close> or later than the current time. On a
  hit the cached data is returned, the underlying operation is not called, the hit
  counter grows by one and the miss counter and the store stay as they are. Otherwise,
  also when an entry that is no longer live is still in the store, the call is a miss:
  the underlying operation is called, the miss counter grows by one and the hit counter
  stays. The store is one that \<^verbatim>\<open>fn\<close> can have built: no expiry in it is the number 0.
\<close>

theorem c1_live_hit:
  assumes "withinTxn args False = Inr False"
    and "store_ok (store_of st type)"
  shows "((cache_lookup (store_of st type) (hash_of inspect digest type prop args) now \<noteq> None)
            = (\<exists>it. map_of (store_of st type) (hash_of inspect digest type prop args) = Some it
                 \<and> live now it))
     \<and> (\<forall>it. map_of (store_of st type) (hash_of inspect digest type prop args) = Some it \<and> live now it
            \<longrightarrow> fn inspect digest target type cfg prop args now now' now'' st
                  = (Resolved (Val (data it)), False, log EvHit st)
                \<and> hit (stats (log EvHit st)) = hit (stats st) + 1
                \<and> miss (stats (log EvHit st)) = miss (stats st)
                \<and> cache (log EvHit st) = cache st)
     \<and> (\<not> (\<exists>it. map_of (store_of st type) (hash_of inspect digest type prop args) = Some it \<and> live now it)
            \<longrightarrow> fst (snd (fn inspect digest target type cfg prop args now now' now'' st))
                \<and> miss (stats (snd (snd (fn inspect digest target type cfg prop args now now' now'' st))))
                    = miss (stats st) + 1
                \<and> hit (stats (snd (snd (fn inspect digest target type cfg prop args now now' now'' st))))
                    = hit (stats st))"
proof -
  let ?h = "hash_of inspect digest type prop args"
  note look = cache_lookup_live [OF assms(2), of ?h now]
  have A: "fn inspect digest target type cfg prop args now now' now'' st
             = (Resolved (Val (data it)), False, log EvHit st)"
    if "map_of (store_of st type) ?h = Some it" "live now it" for it
    using that assms(1) look by (simp add: fn_def)
  have B: "fst (snd (fn inspect digest target type cfg prop args now now' now'' st))
                \<and> miss (stats (snd (snd (fn inspect digest target type cfg prop args now now' now'' st))))
                    = miss (stats st) + 1
                \<and> hit (stats (snd (snd (fn inspect digest target type cfg prop args now now' now'' st))))
                    = hit (stats st)"
    if no: "\<not> (\<exists>it. map_of (store_of st type) ?h = Some it \<and> live now it)"
  proof -
    from no have none: "cache_lookup (store_of st type) ?h now = None"
      unfolding look by (auto split: option.splits)
    show ?thesis
    proof (cases "call_target (target prop args)")
      case (Inl e)
      with none assms(1) show ?thesis by (simp add: fn_def)
    next
      case (Inr p)
      show ?thesis
      proof (cases p)
        case (Rejected e)
        with Inr none assms(1) show ?thesis by (simp add: fn_def)
      next
        case (Resolved v)
        with Inr none assms(1) on_resolved_stats [of type cfg ?h now' now'' v "log EvMiss st"]
        show ?thesis by (auto simp: fn_def split: prod.splits)
      qed
    qed
  qed
  have I: "(cache_lookup (store_of st type) ?h now \<noteq> None)
            = (\<exists>it. map_of (store_of st type) ?h = Some it \<and> live now it)"
    unfolding look by (auto split: option.splits)
  from I A B show ?thesis by simp
qed

theorem c1_live_hit_witness:
  "fn ex_inspect ex_digest ex_target ''A'' ex_config ''findOne'' [ArgVal False ()] 100 100 100 ex_state
     = (Resolved (Val ''a1''), False, log EvHit ex_state)"
proof -
  have h1: "withinTxn [ArgVal False ()] False = Inr False" by simp
  have h2: "store_ok (store_of ex_state ''A'')"
    by (simp add: store_ok_def store_of_def ex_state_def)
  have h3: "map_of (store_of ex_state ''A'')
              (hash_of ex_inspect ex_digest ''A'' ''findOne'' [ArgVal False ()])
            = Some \<lparr>data = ''a1'', expires = ENum 500\<rparr>
          \<and> live 100 \<lparr>data = ''a1'', expires = ENum 500\<rparr>"
    by (simp add: store_of_def ex_state_def hash_of_def key_def ex_inspect_def ex_digest_def live_def)
  from c1_live_hit [OF h1 h2, of ex_inspect ex_digest "''findOne''" 100 ex_target ex_config 100 100] h3
  show ?thesis by auto
qed

text \<open>
  C2, as the spec states it: a purge scan never tracks an entry whose expiry is \<^verbatim>\<open>false\<close>
  as the oldest one, so the size-limit step never deletes such an entry. The code does
  the opposite on a store of one timed and one never-expiring entry with limit 1: the
  never-expiring entry is tracked and deleted.
\<close>

theorem c2_never_expiring_evicted:
  "fst (snd (purge_scan 100 ex_mixed (ex_mixed, None, 0))) = Some (''h2'', EFalse)
   \<and> fst (purge_store 100 1 ex_mixed) = [(''h1'', \<lparr>data = ''a'', expires = ENum 500\<rparr>)]"
  by (simp add: ex_mixed_def purge_store_def)

text \<open>
  C2, amended. The expiry step of a purge scan deletes no entry whose expiry is
  \<^verbatim>\<open>false\<close>, but such an entry is a candidate of the size-limit step: \<^verbatim>\<open>false\<close> compares
  as 0, below every time stamp. When the clock is not negative and no stored expiry is
  the number 0, the first never-expiring entry in iteration order is the tracked oldest
  entry, and it is the entry deleted when the store is over its limit after the scan.
\<close>

theorem c2_candidate:
  assumes "distinct (map fst c)" and "0 \<le> now"
    and "\<forall>p \<in> set c. expires (snd p) \<noteq> ENum 0"
    and "find (\<lambda>p. expires (snd p) = EFalse) c = Some (h, it)"
  shows "(\<forall>p \<in> set c. expires (snd p) = EFalse \<longrightarrow> p \<in> set (fst (purge_scan now c (c, None, 0))))
    \<and> fst (snd (purge_scan now c (c, None, 0))) = Some (h, EFalse)
    \<and> (int (length (survivors now c)) > lim
         \<longrightarrow> fst (purge_store now lim c) = AList.delete h (survivors now c)
           \<and> (h, it) \<notin> set (fst (purge_store now lim c)))"
proof -
  have A: "\<forall>p \<in> set c. expires (snd p) = EFalse \<longrightarrow> p \<in> set (fst (purge_scan now c (c, None, 0)))"
    unfolding scan_self [OF assms(1)] by (simp add: survivors_def expired_def)
  have o: "fst (snd (purge_scan now c (c, None, 0))) = Some (h, EFalse)"
    using survivors_nonneg [OF assms(2)]
    by (intro scan_oldest_first_never [OF _ assms(3,4)]) auto
  have "fst (purge_store now lim c) = AList.delete h (survivors now c)"
    if "int (length (survivors now c)) > lim"
    unfolding purge_store_unfold [OF assms(1)] o using that by simp
  moreover have "(h, it) \<notin> set (AList.delete h (survivors now c))"
    by (auto simp: AList.delete_eq)
  ultimately show ?thesis using A o by simp
qed

theorem c2_candidate_witness:
  "fst (purge_store 100 1 ex_mixed) = AList.delete ''h2'' (survivors 100 ex_mixed)"
proof -
  have h1: "distinct (map fst ex_mixed)" by (simp add: ex_mixed_def)
  have h2: "(0::int) \<le> 100" by simp
  have h3: "\<forall>p \<in> set ex_mixed. expires (snd p) \<noteq> ENum 0" by (simp add: ex_mixed_def)
  have h4: "find (\<lambda>p. expires (snd p) = EFalse) ex_mixed
              = Some (''h2'', \<lparr>data = ''b'', expires = EFalse\<rparr>)"
    by (simp add: ex_mixed_def)
  have h5: "int (length (survivors 100 ex_mixed)) > 1"
    by (simp add: ex_mixed_def survivors_def expired_def)
  from c2_candidate [OF h1 h2 h3 h4, of 1] h5 show ?thesis by simp
qed

text \<open>
  C3. On a store with distinct keys, one purge deletes every entry whose expiry is truthy
  and at most the current time. If the entries that are left are more than the limit,
  and there is one, it deletes exactly one more: an entry whose expiry, read as a number,
  is the least among them. Otherwise it deletes nothing more. So a store of N+1 entries,
  none expired, purged under the limit N, has N entries afterwards.
\<close>

theorem c3_purge:
  assumes "distinct (map fst c)"
  shows "(\<forall>p \<in> set c. expired now (snd p) \<longrightarrow> p \<notin> set (fst (purge_store now lim c)))
    \<and> (\<not> (int (length (survivors now c)) > lim \<and> survivors now c \<noteq> [])
         \<longrightarrow> fst (purge_store now lim c) = survivors now c)
    \<and> (int (length (survivors now c)) > lim \<and> survivors now c \<noteq> []
         \<longrightarrow> (\<exists>h it. (h, it) \<in> set (survivors now c)
               \<and> (\<forall>p \<in> set (survivors now c). to_number (expires it) \<le> to_number (expires (snd p)))
               \<and> fst (purge_store now lim c) = AList.delete h (survivors now c)
               \<and> length (fst (purge_store now lim c)) + 1 = length (survivors now c)))
    \<and> ((\<forall>p \<in> set c. \<not> expired now (snd p)) \<and> 0 \<le> lim \<and> int (length c) = lim + 1
         \<longrightarrow> int (length (fst (purge_store now lim c))) = lim)"
proof -
  let ?s = "survivors now c"
  let ?o = "fst (snd (purge_scan now c (c, None, 0)))"
  note unfold = purge_store_unfold [OF assms, of now lim]
  have dist: "distinct (map fst ?s)"
    using assms by (simp add: survivors_def distinct_map_filter)
  have none: "?o = None \<longleftrightarrow> ?s = []"
    using scan_oldest_Some [of now c c None 0]
    by (auto simp: survivors_def filter_empty_conv)
  have sub: "set (fst (purge_store now lim c)) \<subseteq> set ?s"
    unfolding unfold by (cases ?o) (auto simp: AList.delete_eq split: if_splits)
  have A: "\<forall>p \<in> set c. expired now (snd p) \<longrightarrow> p \<notin> set (fst (purge_store now lim c))"
    using sub by (auto simp: survivors_def)
  have B: "fst (purge_store now lim c) = ?s"
    if "\<not> (int (length ?s) > lim \<and> ?s \<noteq> [])"
    using that none unfolding unfold by (cases ?o) auto
  have C: "\<exists>h it. (h, it) \<in> set ?s
               \<and> (\<forall>p \<in> set ?s. to_number (expires it) \<le> to_number (expires (snd p)))
               \<and> fst (purge_store now lim c) = AList.delete h ?s
               \<and> length (fst (purge_store now lim c)) + 1 = length ?s"
    if over: "int (length ?s) > lim" and ne: "?s \<noteq> []"
  proof -
    from ne none obtain h e where o: "?o = Some (h, e)" by (cases ?o) auto
    from scan_oldest_mem [OF o] obtain it
      where it: "(h, it) \<in> set c" "\<not> expired now it" "expires it = e" by auto
    then have mem: "(h, it) \<in> set ?s" by (simp add: survivors_def)
    have min: "\<forall>p \<in> set ?s. to_number (expires it) \<le> to_number (expires (snd p))"
      using scan_oldest_min [OF o] it(3) by (simp add: survivors_def)
    have res: "fst (purge_store now lim c) = AList.delete h ?s"
      unfolding unfold o using over by simp
    from mem min res length_delete_present [OF dist mem] show ?thesis by auto
  qed
  have D: "int (length (fst (purge_store now lim c))) = lim"
    if fresh: "\<forall>p \<in> set c. \<not> expired now (snd p)" and "0 \<le> lim" "int (length c) = lim + 1"
  proof -
    from fresh have s: "?s = c" by (simp add: survivors_def filter_id_conv)
    with that have "int (length ?s) > lim" "?s \<noteq> []" by auto
    from C [OF this] s that show ?thesis by auto
  qed
  from A B C D show ?thesis by blast
qed


theorem c3_purge_witness:
  "int (length (fst (purge_store 100 2 ex_fresh))) = 2"
proof -
  have h1: "distinct (map fst ex_fresh)" by (simp add: ex_fresh_def)
  have h2: "(\<forall>p \<in> set ex_fresh. \<not> expired 100 (snd p)) \<and> (0::int) \<le> 2
              \<and> int (length ex_fresh) = 2 + 1"
    by (simp add: ex_fresh_def expired_def)
  from c3_purge [OF h1, of 100 2] h2 show ?thesis by blast
qed

text \<open>
  C4. The loop of \<^verbatim>\<open>clear\<close> is a total function of the association map and the roots,
  whatever cycles the map has. Started with empty sets, it runs its body at most once for
  a type (\<open>visited\<close> has no duplicates), the types to clear are the visited ones, and they
  are exactly the types reachable from the roots, the roots included. \<^verbatim>\<open>clear\<close> empties
  the store of each of them once (the list it folds over has no duplicates) and leaves
  every other store as it is.
\<close>

theorem c4_clear:
  "distinct (fst (clear_loop g roots [] []))
   \<and> snd (clear_loop g roots [] []) = fst (clear_loop g roots [] [])
   \<and> set (snd (clear_loop g roots [] [])) = reachable g (set roots)
   \<and> clear modelNames st = fold clear_type (clear_closure st modelNames) st
   \<and> distinct (clear_closure st modelNames)
   \<and> set (clear_closure st modelNames) = reachable (associations st) (set (clear_roots st modelNames))
   \<and> (\<forall>t \<in> reachable (associations st) (set (clear_roots st modelNames)).
        map_of (cache (clear modelNames st)) t = map_option (\<lambda>c. []) (map_of (cache st) t))
   \<and> (\<forall>t. t \<notin> reachable (associations st) (set (clear_roots st modelNames))
        \<longrightarrow> map_of (cache (clear modelNames st)) t = map_of (cache st) t)"
proof -
  have 1: "snd (clear_loop g roots [] []) = fst (clear_loop g roots [] [])" for g roots
    by (rule clear_loop_same) simp
  have 2: "distinct (fst (clear_loop g roots [] []))" for g roots
    by (simp add: clear_loop_distinct)
  have 3: "set (clear_closure st modelNames) = reachable (associations st) (set (clear_roots st modelNames))"
    unfolding clear_closure_def clear_roots_def by (rule clear_loop_reachable)
  have 4: "distinct (clear_closure st modelNames)"
    unfolding clear_closure_def 1 by (rule 2)
  show ?thesis
    using 1 2 3 4 clear_loop_reachable [of g roots]
    by (simp add: clear_def fold_clear_type_cache)
qed

theorem c4_clear_witness:
  "fst (clear_loop ex_cycle [''A''] [] []) = [''A'', ''B'', ''C'']
   \<and> ''C'' \<in> reachable ex_cycle {''A''}
   \<and> map_of (cache (clear [''A''] ex_cycle_state)) ''C'' = Some []"
proof -
  have run: "clear_loop ex_cycle [''A''] [] [] = ([''A'', ''B'', ''C''], [''A'', ''B'', ''C''])"
    by (simp add: clear_loop.simps ex_cycle_def enqueue_def set_add_def)
  note c4 = c4_clear [of ex_cycle "[''A'']" "[''A'']" ex_cycle_state]
  from c4 have "set (snd (clear_loop ex_cycle [''A''] [] [])) = reachable ex_cycle (set [''A''])"
    by blast
  then have r: "reachable ex_cycle {''A''} = {''A'', ''B'', ''C''}"
    unfolding run by auto
  have ex: "associations ex_cycle_state = ex_cycle"
       "clear_roots ex_cycle_state [''A''] = [''A'']"
       "map_of (cache ex_cycle_state) ''C'' = Some [(''C.findOne'', \<lparr>data = ''c1'', expires = ENum 500\<rparr>)]"
    by (simp_all add: ex_cycle_state_def ex_state_def clear_roots_def)
  from c4 have "\<forall>t \<in> reachable (associations ex_cycle_state) (set (clear_roots ex_cycle_state [''A''])).
        map_of (cache (clear [''A''] ex_cycle_state)) t
          = map_option (\<lambda>c. []) (map_of (cache ex_cycle_state) t)"
    by blast
  then have "map_of (cache (clear [''A''] ex_cycle_state)) ''C'' = Some []"
    using r ex by simp
  with r run show ?thesis by simp
qed

text \<open>
  C5. The spec has the association map symmetric after any sequence of registrations,
  and \<^verbatim>\<open>_addReverseAssociations\<close> is there to make it so. \<^verbatim>\<open>_addAssociations\<close> overwrites the
  list of the registering model, reverse edges included: after C registers its
  association to A, and A registers its association to B, the list of C holds A and the
  list of A no longer holds C.
\<close>

theorem c5_reverse_edge_lost:
  "registerAssociations ''A'' (Some [Some ''B''])
     (registerAssociations ''C'' (Some [Some ''A'']) [])
   = [(''C'', [''A'']), (''A'', [''B'']), (''B'', [''A''])]"
  by (simp add: registerAssociations_def addAssociations_def addReverseAssociations_def
      addReverse_def)

text \<open>
  C6. The spec has an invalidating operation on A clear the cache of A and of every type
  associated with A, and leave unrelated types alone. \<^verbatim>\<open>clear\<close> follows the association
  map, and the map loses the edge from A to a type that declared the association once A
  registers its own (the defect of C5). After C registers its association to A and A
  registers its association to B, reading \<^verbatim>\<open>update\<close> on A runs \<^verbatim>\<open>clear\<close>, which empties
  the stores of A and B and leaves the store of C, a type associated with A, as it was.
\<close>

theorem c6_associated_not_cleared:
  "associations ex_registered = [(''C'', [''A'']), (''A'', [''B'']), (''B'', [''A''])]
   \<and> proxy_get True ''A'' ''update'' ex_registered = (Original, clear [''A''] ex_registered)
   \<and> map_of (cache (clear [''A''] ex_registered)) ''A'' = Some []
   \<and> map_of (cache (clear [''A''] ex_registered)) ''B'' = Some []
   \<and> map_of (cache (clear [''A''] ex_registered)) ''C''
       = Some [(''C.findOne'', \<lparr>data = ''c1'', expires = ENum 500\<rparr>)]"
proof -
  have g: "associations ex_registered = [(''C'', [''A'']), (''A'', [''B'']), (''B'', [''A''])]"
    by (simp add: ex_registered_def ex_unregistered_def register_model_def
        registerAssociations_def addAssociations_def addReverseAssociations_def addReverse_def)
  have c: "cache ex_registered = cache ex_state" "config ex_registered = config ex_state"
    by (simp_all add: ex_registered_def ex_unregistered_def register_model_def)
  have run: "clear_closure ex_registered [''A''] = [''A'', ''B'']"
    by (simp add: clear_closure_def g clear_loop.simps enqueue_def set_add_def)
  have get: "proxy_get True ''A'' ''update'' ex_registered = (Original, clear [''A''] ex_registered)"
    by (simp add: proxy_get_def c ex_state_def ex_config_def)
  have cl: "map_of (cache (clear [''A''] ex_registered)) t =
      (if t \<in> {''A'', ''B''} then map_option (\<lambda>c. []) (map_of (cache ex_state) t)
       else map_of (cache ex_state) t)" for t
    unfolding clear_def run fold_clear_type_cache c by simp
  from g get show ?thesis
    by (simp add: cl ex_state_def)
qed

text \<open>
  C7, as the spec states it: whenever some argument carries a transaction, the result of
  the underlying operation is returned to the caller. The code does not do so when
  another argument is \<^verbatim>\<open>null\<close> (the call is rejected before the underlying operation is
  called), nor when the underlying operation returns something that is no promise (the
  assertion rejects the call).
\<close>

theorem c7_bypass_counterexample:
  "fn ex_inspect ex_digest ex_target ''A'' ex_config ''findOne'' [ArgNull, ArgVal True ()] 100 100 100 ex_state
     = (Rejected TypeError, False, ex_state)
   \<and> fn ex_inspect ex_digest ex_target_plain ''A'' ex_config ''findOne'' [ArgVal True ()] 100 100 100 ex_state
     = (Rejected AssertionError, True, ex_state)"
  by (simp add: fn_def ex_target_plain_def)

text \<open>
  C7, amended. When some argument carries a transaction and no argument is \<^verbatim>\<open>null\<close> or
  \<^verbatim>\<open>undefined\<close>, the cache is bypassed: the result depends on neither the key nor the
  store, the state (stores and counters) is unchanged, and the underlying operation is
  called. If it returns a promise, that promise is what the caller gets; if it returns
  something else or throws, the call is rejected.
\<close>

theorem c7_bypass:
  assumes "ArgVal True v \<in> set args" and "ArgNull \<notin> set args" and "ArgUndefined \<notin> set args"
  shows "fn inspect digest target type cfg prop args now now' now'' st =
           (case target prop args of
              RetPromise p \<Rightarrow> (p, True, st)
            | RetPlain \<Rightarrow> (Rejected AssertionError, True, st)
            | RetNullish \<Rightarrow> (Rejected TypeError, True, st)
            | RetThrows \<Rightarrow> (Rejected UnderlyingFailure, True, st))"
proof -
  have "withinTxn args False = Inr True"
    using withinTxn_values [OF assms(2,3), of False] assms(1) by auto
  then show ?thesis
    by (cases "target prop args") (simp_all add: fn_def)
qed


theorem c7_bypass_witness:
  "fn ex_inspect ex_digest ex_target ''A'' ex_config ''findOne'' [ArgVal True ()] 100 100 100 ex_state
     = (Resolved (Val ''row''), True, ex_state)"
proof -
  have h: "ArgVal True () \<in> set [ArgVal True ()]" "ArgNull \<notin> set [ArgVal True ()]"
    "ArgUndefined \<notin> set [ArgVal True ()]"
    by simp_all
  from c7_bypass [OF h, of ex_inspect ex_digest ex_target "''A''" ex_config "''findOne''" 100 100 100 ex_state]
  show ?thesis by (simp add: ex_target_def)
qed

text \<open>
  C8. On a configured model, the callback that runs when the underlying operation of a
  miss resolves returns the resolved value in every case. For \<^verbatim>\<open>undefined\<close> and \<^verbatim>\<open>null\<close> it
  leaves the state as it is. For any other value it sets the entry under the hash of the
  call, with expiry \<open>now + ttl * 1000\<close> when \<open>ttl > 0\<close> and \<^verbatim>\<open>false\<close> when \<open>ttl\<close> is \<^verbatim>\<open>false\<close> or
  at most 0, counts one load, and purges the type if its store is then over the limit.
  A miss whose underlying operation resolves is \<^verbatim>\<open>fn\<close> returning that value, with this
  callback run after the miss was logged.
\<close>

theorem c8_store_resolved:
  assumes "map_of (config st) type = Some cfg"
  shows "fst (on_resolved type cfg h now nowp v st) = Resolved v
     \<and> ((v = Undefined \<or> v = Null) \<longrightarrow> on_resolved type cfg h now nowp v st = (Resolved v, st))
     \<and> (\<forall>d. v = Val d \<longrightarrow>
          (let it = \<lparr>data = d, expires = (case ttl cfg of
                       TtlFalse \<Rightarrow> EFalse
                     | TtlNum s \<Rightarrow> if s > 0 then ENum (now + s * 1000) else EFalse)\<rparr>;
               st1 = log EvLoad (cache_set type h it st)
           in map_of (store_of st1 type) h = Some it
              \<and> load (stats st1) = load (stats st) + 1
              \<and> snd (on_resolved type cfg h now nowp v st)
                   = (if int (length (store_of st1 type)) > limit cfg
                      then snd (purge nowp [type] st1) else st1)))
     \<and> (withinTxn args False = Inr False
          \<and> cache_lookup (store_of st type) (hash_of inspect digest type prop args) now0 = None
          \<and> target prop args = RetPromise (Resolved v)
          \<longrightarrow> fn inspect digest target type cfg prop args now0 now nowp st
               = (Resolved v, True,
                  snd (on_resolved type cfg (hash_of inspect digest type prop args) now nowp v (log EvMiss st))))"
proof -
  have ex: "expires_at (ttl cfg) now = (case ttl cfg of
                       TtlFalse \<Rightarrow> EFalse
                     | TtlNum s \<Rightarrow> if s > 0 then ENum (now + s * 1000) else EFalse)"
    by (cases "ttl cfg") simp_all
  have nopurge: "fst (purge nowp [type] st') = None" if "config st' = config st" for st' :: "'a cache_state"
    using purge_one_configured [of st' type cfg nowp] assms that by simp
  have A: "fst (on_resolved type cfg h now nowp v st) = Resolved v"
  proof (cases v)
    case (Val d)
    let ?st1 = "log EvLoad (cache_set type h \<lparr>data = d, expires = expires_at (ttl cfg) now\<rparr> st)"
    from nopurge [of ?st1] Val show ?thesis
      by (cases "purge nowp [type] ?st1") (simp add: on_resolved_def Let_def)
  qed (simp_all add: on_resolved_def)
  have B: "on_resolved type cfg h now nowp v st = (Resolved v, st)" if "v = Undefined \<or> v = Null"
    using that by (auto simp: on_resolved_def)
  have C: "let it = \<lparr>data = d, expires = (case ttl cfg of
                       TtlFalse \<Rightarrow> EFalse
                     | TtlNum s \<Rightarrow> if s > 0 then ENum (now + s * 1000) else EFalse)\<rparr>;
               st1 = log EvLoad (cache_set type h it st)
           in map_of (store_of st1 type) h = Some it
              \<and> load (stats st1) = load (stats st) + 1
              \<and> snd (on_resolved type cfg h now nowp v st)
                   = (if int (length (store_of st1 type)) > limit cfg
                      then snd (purge nowp [type] st1) else st1)" if "v = Val d" for d
  proof -
    let ?st1 = "log EvLoad (cache_set type h \<lparr>data = d, expires = expires_at (ttl cfg) now\<rparr> st)"
    have "snd (on_resolved type cfg h now nowp v st)
            = (if int (length (store_of ?st1 type)) > limit cfg
               then snd (purge nowp [type] ?st1) else ?st1)"
      using that nopurge [of ?st1]
      by (cases "purge nowp [type] ?st1") (simp add: on_resolved_def Let_def)
    then show ?thesis
      unfolding ex [symmetric] Let_def by simp
  qed
  have D: "fn inspect digest target type cfg prop args now0 now nowp st
               = (Resolved v, True,
                  snd (on_resolved type cfg (hash_of inspect digest type prop args) now nowp v (log EvMiss st)))"
    if "withinTxn args False = Inr False"
      "cache_lookup (store_of st type) (hash_of inspect digest type prop args) now0 = None"
      "target prop args = RetPromise (Resolved v)"
  proof -
    have "map_of (config (log EvMiss st)) type = Some cfg" using assms by simp
    have "fst (on_resolved type cfg (hash_of inspect digest type prop args) now nowp v (log EvMiss st)) = Resolved v"
    proof (cases v)
      case (Val d)
      let ?st1 = "log EvLoad (cache_set type (hash_of inspect digest type prop args)
          \<lparr>data = d, expires = expires_at (ttl cfg) now\<rparr> (log EvMiss st))"
      from nopurge [of ?st1] Val show ?thesis
        by (cases "purge nowp [type] ?st1") (simp add: on_resolved_def Let_def)
    qed (simp_all add: on_resolved_def)
    with that show ?thesis
      by (auto simp: fn_def split: prod.splits)
  qed
  from A B C D show ?thesis by blast
qed


theorem c8_store_resolved_witness:
  "on_resolved ''A'' ex_config ''k'' 1000 1000 Null ex_state = (Resolved Null, ex_state)
   \<and> map_of (store_of (snd (on_resolved ''A'' ex_config ''k'' 1000 1000 (Val ''row'') ex_state)) ''A'') ''k''
       = Some \<lparr>data = ''row'', expires = ENum 6000\<rparr>"
proof -
  have h: "map_of (config ex_state) ''A'' = Some ex_config"
    by (simp add: ex_state_def)
  have l: "\<not> int (length (store_of (log EvLoad (cache_set ''A'' ''k''
              \<lparr>data = ''row'', expires = ENum 6000\<rparr> ex_state)) ''A'')) > limit ex_config"
    by (simp add: cache_set_def store_of_def ex_state_def ex_config_def)
  have t: "ttl ex_config = TtlNum 5" by (simp add: ex_config_def)
  from c8_store_resolved [OF h, of "''k''" 1000 1000 Null, THEN conjunct2, THEN conjunct1]
  have 1: "on_resolved ''A'' ex_config ''k'' 1000 1000 Null ex_state = (Resolved Null, ex_state)"
    by simp
  from c8_store_resolved [OF h, of "''k''" 1000 1000 "Val ''row''", THEN conjunct2, THEN conjunct2,
      THEN conjunct1] l t
  have 2: "map_of (store_of (snd (on_resolved ''A'' ex_config ''k'' 1000 1000 (Val ''row'') ex_state)) ''A'') ''k''
       = Some \<lparr>data = ''row'', expires = ENum 6000\<rparr>"
    by (simp add: Let_def)
  from 1 2 show ?thesis by simp
qed

text \<open>
  C10. When some argument of a cacheable call is \<^verbatim>\<open>null\<close> or \<^verbatim>\<open>undefined\<close>, the
  transaction check throws: the call is rejected with a TypeError, the underlying
  operation is not called, and the state (stores and counters) is unchanged, whatever
  the store holds.
\<close>

theorem c10_nullish_argument:
  assumes "ArgNull \<in> set args \<or> ArgUndefined \<in> set args"
  shows "fn inspect digest target type cfg prop args now now' now'' st = (Rejected TypeError, False, st)"
  using withinTxn_nullish [OF assms, of False] by (simp add: fn_def)


theorem c10_nullish_argument_witness:
  "fn ex_inspect ex_digest ex_target ''A'' ex_config ''findOne'' [ArgVal False (), ArgUndefined] 100 100 100 ex_state
     = (Rejected TypeError, False, ex_state)"
proof -
  have h: "ArgNull \<in> set [ArgVal False (), ArgUndefined] \<or> ArgUndefined \<in> set [ArgVal False (), ArgUndefined]"
    by simp
  from c10_nullish_argument [OF h] show ?thesis .
qed

end
